theory Spec2Isabelle
  imports Main "HOL-Library.Word"
begin

section \<open>One-time initialisation guards\<close>

text \<open>
  Memory is a map from addresses to bytes. A guard object is the address of a 64-bit
  cell; both guard functions cast that address to a byte pointer, so they touch the
  byte at the address itself, which is the byte of the cell with the lowest address.
\<close>

type_synonym addr = nat
type_synonym memory = "addr \<Rightarrow> 8 word"

definition cxa_guard_acquire :: "memory \<Rightarrow> addr \<Rightarrow> int" where
  "cxa_guard_acquire mem guard_object = (if mem guard_object = 0 then 1 else 0)"

definition cxa_guard_release :: "memory \<Rightarrow> addr \<Rightarrow> memory" where
  "cxa_guard_release mem guard_object = mem(guard_object := 1)"

text \<open>The eight bytes of the 64-bit guard object at an address, lowest address first.\<close>

definition guard_bytes :: "memory \<Rightarrow> addr \<Rightarrow> 8 word list" where
  "guard_bytes mem guard_object = map mem [guard_object ..< guard_object + 8]"

text \<open>
  Calls of the two guard functions, to speak about what happens between one call and a
  later one: acquire does not write, release writes as above.
\<close>

datatype guard_call = Acquire addr | Release addr

fun guard_calls :: "guard_call list \<Rightarrow> memory \<Rightarrow> memory" where
  "guard_calls [] mem = mem"
| "guard_calls (Acquire g # cs) mem = guard_calls cs mem"
| "guard_calls (Release g # cs) mem = guard_calls cs (cxa_guard_release mem g)"


section \<open>The registry of exit functions\<close>

subsection \<open>Data\<close>

text \<open>
  Function pointers and opaque user data pointers are addresses; 0 is the null pointer.
  Calling a stored entry is an event of the trace: what the callee does is outside
  this file, and a callee does not register further exit functions.
\<close>

type_synonym fnptr = nat
type_synonym voidptr = nat

record ExitFunctionStorage =
  m_functionptr :: fnptr
  m_userdata :: voidptr

datatype event = Call fnptr voidptr

definition invoke :: "ExitFunctionStorage \<Rightarrow> event" where
  "invoke e = Call (m_functionptr e) (m_userdata e)"

definition BLOCK_SZ :: "8 word" where
  "BLOCK_SZ = 32"

record FnBlock =
  m_funcs :: "ExitFunctionStorage list"
  m_sz :: "8 word"

text \<open>
  A pointer to a block is the address of the static block \<open>m_tail\<close> or the address
  of a node on the heap. A node is a block with the pointer to the next block.
\<close>

datatype blockptr = TailPtr | NodePtr addr

record FnNode = FnBlock +
  m_next :: blockptr

datatype FinalizerPtr = Ptr_NoOpFinalize | Ptr_finalize_noargs

datatype error = OutOfBounds | InvalidPointer

text \<open>
  The globals of the translation unit, the heap of nodes, and the free store. The free
  store is the list of answers that the coming calls of the non-throwing \<open>new\<close>
  will give: \<open>None\<close> for a null pointer, or the address of the storage together with
  what that storage holds when it is handed out. An exhausted list answers null.
  Nothing here makes the free store hand out storage that is not in use, or storage
  that is zeroed: a statement that needs either says so.
\<close>

record state =
  m_tail :: FnBlock
  m_list :: blockptr
  heap :: "addr \<rightharpoonup> FnNode"
  CxaFinalizer :: FinalizerPtr
  free_store :: "(addr \<times> FnBlock) option list"

subsection \<open>Blocks\<close>

definition full :: "'a FnBlock_scheme \<Rightarrow> bool" where
  "full b = (m_sz b = BLOCK_SZ)"

text \<open>
  \<open>m_funcs[m_sz++] = newfn\<close>: a write past the 32 entries of the array is an error.
\<close>

definition FnBlock_push_front ::
  "ExitFunctionStorage \<Rightarrow> 'a FnBlock_scheme \<Rightarrow> error + 'a FnBlock_scheme" where
  "FnBlock_push_front newfn b =
     (if unat (m_sz b) < unat BLOCK_SZ
      then Inr (b\<lparr>m_funcs := (m_funcs b)[unat (m_sz b) := newfn], m_sz := m_sz b + 1\<rparr>)
      else Inl OutOfBounds)"

text \<open>
  The loop of \<open>run_all\<close>, from the counter \<open>i\<close> down to 1, appending the calls to
  the trace. A read past the 32 entries of the array is an error.
\<close>

function run_all_loop ::
  "'a FnBlock_scheme \<Rightarrow> 8 word \<Rightarrow> event list \<Rightarrow> error + event list" where
  "run_all_loop b i tr =
     (if 0 < i
      then (if unat i - 1 < unat BLOCK_SZ
            then run_all_loop b (i - 1) (tr @ [invoke (m_funcs b ! (unat i - 1))])
            else Inl OutOfBounds)
      else Inr tr)"
  by pat_completeness auto
termination
  by (relation "measure (\<lambda>(b, i, tr). unat i)")
     (auto simp: unat_minus_one word_greater_zero_iff unat_gt_0)

definition run_all :: "'a FnBlock_scheme \<Rightarrow> event list \<Rightarrow> error + event list" where
  "run_all b tr = run_all_loop b (m_sz b) tr"

subsection \<open>The list of blocks\<close>

text \<open>
  \<open>new (std::nothrow) FnNode{next}\<close>. The constructor of \<open>FnNode\<close> initialises
  \<open>m_next\<close> only: the entries and the count of the new node are what the storage
  held when the free store handed it out.
\<close>

definition new_FnNode :: "blockptr \<Rightarrow> state \<Rightarrow> addr option \<times> state" where
  "new_FnNode next s =
     (case free_store s of
        [] \<Rightarrow> (None, s)
      | None # rest \<Rightarrow> (None, s\<lparr>free_store := rest\<rparr>)
      | Some (a, raw) # rest \<Rightarrow>
          (Some a,
           s\<lparr>heap := (heap s)(a \<mapsto> \<lparr>m_funcs = m_funcs raw, m_sz = m_sz raw, m_next = next\<rparr>),
             free_store := rest\<rparr>))"

text \<open>The branch of \<open>push_front\<close> taken when the current block is full.\<close>

definition push_front_new_block ::
  "ExitFunctionStorage \<Rightarrow> state \<Rightarrow> error + (bool \<times> state)" where
  "push_front_new_block new_exit s =
     (case new_FnNode (m_list s) s of
        (None, s1) \<Rightarrow> Inr (False, s1)
      | (Some a, s1) \<Rightarrow>
          (case heap s1 a of
             None \<Rightarrow> Inl InvalidPointer
           | Some next_block \<Rightarrow>
               (case FnBlock_push_front new_exit next_block of
                  Inl e \<Rightarrow> Inl e
                | Inr nb \<Rightarrow> Inr (True, s1\<lparr>heap := (heap s1)(a \<mapsto> nb), m_list := NodePtr a\<rparr>))))"

definition push_front :: "ExitFunctionStorage \<Rightarrow> state \<Rightarrow> error + (bool \<times> state)" where
  "push_front new_exit s =
     (case m_list s of
        TailPtr \<Rightarrow>
          (if \<not> full (m_tail s)
           then (case FnBlock_push_front new_exit (m_tail s) of
                   Inl e \<Rightarrow> Inl e
                 | Inr b \<Rightarrow> Inr (True, s\<lparr>m_tail := b\<rparr>))
           else push_front_new_block new_exit s)
      | NodePtr a \<Rightarrow>
          (case heap s a of
             None \<Rightarrow> Inl InvalidPointer
           | Some current_block \<Rightarrow>
               (if \<not> full current_block
                then (case FnBlock_push_front new_exit current_block of
                        Inl e \<Rightarrow> Inl e
                      | Inr b \<Rightarrow> Inr (True, s\<lparr>heap := (heap s)(a \<mapsto> b)\<rparr>))
                else push_front_new_block new_exit s)))"

text \<open>
  The loop of \<open>run_all_exits\<close> follows the pointers until it meets the static block.
  Nothing in the loop bounds the number of steps, so not returning is the value
  \<open>None\<close>.
\<close>

partial_function (option) run_all_exits_loop ::
  "state \<Rightarrow> event list \<Rightarrow> (error + (state \<times> event list)) option" where
  "run_all_exits_loop s tr =
     (case m_list s of
        TailPtr \<Rightarrow> Some (Inr (s, tr))
      | NodePtr a \<Rightarrow>
          (case heap s a of
             None \<Rightarrow> Some (Inl InvalidPointer)
           | Some current_node \<Rightarrow>
               (case run_all current_node tr of
                  Inl e \<Rightarrow> Some (Inl e)
                | Inr tr' \<Rightarrow> run_all_exits_loop (s\<lparr>m_list := m_next current_node\<rparr>) tr')))"

definition run_all_exits :: "state \<Rightarrow> (error + (state \<times> event list)) option" where
  "run_all_exits s =
     (case run_all_exits_loop s [] of
        None \<Rightarrow> None
      | Some (Inl e) \<Rightarrow> Some (Inl e)
      | Some (Inr (s', tr)) \<Rightarrow>
          (case run_all (m_tail s') tr of
             Inl e \<Rightarrow> Some (Inl e)
           | Inr tr' \<Rightarrow> Some (Inr (s', tr'))))"

subsection \<open>The entry points\<close>

definition NoOpFinalize :: "state \<Rightarrow> (error + (state \<times> event list)) option" where
  "NoOpFinalize s = Some (Inr (s, []))"

definition finalize_noargs :: "state \<Rightarrow> (error + (state \<times> event list)) option" where
  "finalize_noargs s = run_all_exits s"

text \<open>What \<open>_fini\<close> does with the entry \<open>CxaFinalizer\<close> of the table: it calls it.\<close>

definition call_CxaFinalizer :: "state \<Rightarrow> (error + (state \<times> event list)) option" where
  "call_CxaFinalizer s =
     (case CxaFinalizer s of
        Ptr_NoOpFinalize \<Rightarrow> NoOpFinalize s
      | Ptr_finalize_noargs \<Rightarrow> finalize_noargs s)"

definition cxa_atexit :: "fnptr \<Rightarrow> voidptr \<Rightarrow> voidptr \<Rightarrow> state \<Rightarrow> error + (int \<times> state)" where
  "cxa_atexit f p dso_handle s =
     (case push_front \<lparr>m_functionptr = f, m_userdata = p\<rparr>
             (s\<lparr>CxaFinalizer := Ptr_finalize_noargs\<rparr>) of
        Inl e \<Rightarrow> Inl e
      | Inr (ok, s') \<Rightarrow> Inr (if ok then 0 else - 1, s'))"

text \<open>
  The state at program start: the static block is zero-initialised, the list points to
  it, no node is on the heap, and the table entry points to the no-op.
\<close>

definition null_entry :: ExitFunctionStorage where
  "null_entry = \<lparr>m_functionptr = 0, m_userdata = 0\<rparr>"

definition initial_state :: "(addr \<times> FnBlock) option list \<Rightarrow> state" where
  "initial_state fs =
     \<lparr>m_tail = \<lparr>m_funcs = replicate (unat BLOCK_SZ) null_entry, m_sz = 0\<rparr>,
      m_list = TailPtr,
      heap = Map.empty,
      CxaFinalizer = Ptr_NoOpFinalize,
      free_store = fs\<rparr>"

text \<open>
  A run of calls of \<open>__cxa_atexit\<close>, one after the other, with the return values
  in the order of the calls.
\<close>

fun atexit_calls ::
  "(fnptr \<times> voidptr \<times> voidptr) list \<Rightarrow> state \<Rightarrow> error + (int list \<times> state)" where
  "atexit_calls [] s = Inr ([], s)"
| "atexit_calls ((f, p, d) # cs) s =
     (case cxa_atexit f p d s of
        Inl e \<Rightarrow> Inl e
      | Inr (r, s') \<Rightarrow>
          (case atexit_calls cs s' of
             Inl e \<Rightarrow> Inl e
           | Inr (rs, s'') \<Rightarrow> Inr (r # rs, s'')))"


subsection \<open>Vocabulary of the properties\<close>

text \<open>The entry that a call of \<open>__cxa_atexit\<close> stores: the first two arguments.\<close>

definition entry_of :: "fnptr \<times> voidptr \<times> voidptr \<Rightarrow> ExitFunctionStorage" where
  "entry_of c = \<lparr>m_functionptr = fst c, m_userdata = fst (snd c)\<rparr>"

text \<open>
  The state in which the entries \<open>es\<close>, oldest first, are all in the static block and
  no node is on the heap.
\<close>

definition tail_state ::
  "ExitFunctionStorage list \<Rightarrow> FinalizerPtr \<Rightarrow> (addr \<times> FnBlock) option list \<Rightarrow> state" where
  "tail_state es fin fs =
     \<lparr>m_tail = \<lparr>m_funcs = es @ replicate (unat BLOCK_SZ - length es) null_entry,
                m_sz = of_nat (length es)\<rparr>,
      m_list = TailPtr, heap = Map.empty, CxaFinalizer = fin, free_store = fs\<rparr>"

text \<open>The block that \<open>m_list\<close> points to is full.\<close>

definition head_full :: "state \<Rightarrow> bool" where
  "head_full s =
     (case m_list s of
        TailPtr \<Rightarrow> full (m_tail s)
      | NodePtr a \<Rightarrow> (case heap s a of None \<Rightarrow> False | Some nd \<Rightarrow> full nd))"

text \<open>The next request to the free store is answered with a null pointer.\<close>

definition allocation_fails :: "state \<Rightarrow> bool" where
  "allocation_fails s = (case free_store s of [] \<Rightarrow> True | x # rest \<Rightarrow> x = None)"

text \<open>
  A whole run of a program: the calls of \<open>__cxa_atexit\<close> from program start, then
  the traversal; the result is the return values and the trace of the traversal.
\<close>

definition exit_trace ::
  "(fnptr \<times> voidptr \<times> voidptr) list \<Rightarrow> (addr \<times> FnBlock) option list
   \<Rightarrow> (error + (int list \<times> event list)) option" where
  "exit_trace cs fs =
     (case atexit_calls cs (initial_state fs) of
        Inl e \<Rightarrow> Some (Inl e)
      | Inr (rs, s) \<Rightarrow>
          (case run_all_exits s of
             None \<Rightarrow> None
           | Some (Inl e) \<Rightarrow> Some (Inl e)
           | Some (Inr (s', tr)) \<Rightarrow> Some (Inr (rs, tr))))"

text \<open>
  What follows describes the states in which the order of the traversal is the reverse
  of the order of registration. The nodes of the list are at the addresses \<open>as\<close>,
  the newest first; every block has 32 entries and a count of at most 32; and every
  piece of storage that the free store will hand out is at an address of its own, away
  from the nodes of the list, and holds the count 0.
\<close>

fun chain :: "(addr \<rightharpoonup> FnNode) \<Rightarrow> blockptr \<Rightarrow> addr list \<Rightarrow> bool" where
  "chain h p [] = (p = TailPtr)"
| "chain h p (a # as) =
     (p = NodePtr a \<and> (case h a of None \<Rightarrow> False | Some nd \<Rightarrow> chain h (m_next nd) as))"

definition block_entries :: "'a FnBlock_scheme \<Rightarrow> ExitFunctionStorage list" where
  "block_entries b = take (unat (m_sz b)) (m_funcs b)"

definition block_ok :: "'a FnBlock_scheme \<Rightarrow> bool" where
  "block_ok b = (length (m_funcs b) = 32 \<and> unat (m_sz b) \<le> 32)"

fun node_entries :: "(addr \<rightharpoonup> FnNode) \<Rightarrow> addr list \<Rightarrow> ExitFunctionStorage list" where
  "node_entries h [] = []"
| "node_entries h (a # as) =
     node_entries h as @ (case h a of None \<Rightarrow> [] | Some nd \<Rightarrow> block_entries nd)"

fun nodes_ok :: "(addr \<rightharpoonup> FnNode) \<Rightarrow> addr list \<Rightarrow> bool" where
  "nodes_ok h [] = True"
| "nodes_ok h (a # as) =
     ((case h a of None \<Rightarrow> False | Some nd \<Rightarrow> block_ok nd) \<and> nodes_ok h as)"

fun store_ok :: "addr list \<Rightarrow> (addr \<times> FnBlock) option list \<Rightarrow> bool" where
  "store_ok as [] = distinct as"
| "store_ok as (None # fs) = store_ok as fs"
| "store_ok as (Some (a, raw) # fs) =
     (m_sz raw = 0 \<and> length (m_funcs raw) = 32 \<and> a \<notin> set as \<and> store_ok (a # as) fs)"

definition registered :: "state \<Rightarrow> addr list \<Rightarrow> ExitFunctionStorage list \<Rightarrow> bool" where
  "registered s as es =
     (chain (heap s) (m_list s) as \<and> nodes_ok (heap s) as \<and> block_ok (m_tail s)
      \<and> store_ok as (free_store s)
      \<and> es = block_entries (m_tail s) @ node_entries (heap s) as)"

text \<open>The calls of a run that returned 0, in the order of the calls.\<close>

definition accepted ::
  "int list \<Rightarrow> (fnptr \<times> voidptr \<times> voidptr) list \<Rightarrow> (fnptr \<times> voidptr \<times> voidptr) list" where
  "accepted rs cs = map snd (filter (\<lambda>rc. fst rc = 0) (zip rs cs))"


section \<open>Properties of the guards\<close>

lemma guard_calls_keep:
  "mem g = 1 \<Longrightarrow> guard_calls cs mem g = 1"
  by (induction cs mem rule: guard_calls.induct) (auto simp: cxa_guard_release_def)

text \<open>
  C5. Acquire answers 1 exactly when the lowest byte of the token is zero, and 0
  otherwise. Once release has been called on a token, acquire on it answers 0, whatever
  guard calls on whatever tokens happen in between. Release needs no earlier acquire:
  for any memory it leaves the byte non-zero.
\<close>

theorem guard_one_shot:
  "(cxa_guard_acquire mem g = 1 \<longleftrightarrow> mem g = 0)
   \<and> (cxa_guard_acquire mem g = 0 \<longleftrightarrow> mem g \<noteq> 0)
   \<and> cxa_guard_acquire (cxa_guard_release mem g) g = 0
   \<and> cxa_guard_acquire (guard_calls cs (cxa_guard_release mem g)) g = 0
   \<and> cxa_guard_release mem g g \<noteq> 0"
  using guard_calls_keep [of "cxa_guard_release mem g" g cs]
  by (simp add: cxa_guard_acquire_def cxa_guard_release_def)

text \<open>
  C6. Release changes no byte other than the one at the address of the token, so the
  seven upper bytes of the token are as before; the answer of acquire depends on no
  other byte than that one, and the memory that release leaves at the token does not
  depend on what was there.
\<close>

theorem guard_frame:
  assumes "a \<noteq> g" and "mem g = mem' g"
  shows "cxa_guard_release mem g a = mem a
   \<and> tl (guard_bytes (cxa_guard_release mem g) g) = tl (guard_bytes mem g)
   \<and> cxa_guard_acquire mem g = cxa_guard_acquire mem' g
   \<and> hd (guard_bytes (cxa_guard_release mem g) g) = 1"
  using assms
  by (simp add: cxa_guard_acquire_def cxa_guard_release_def guard_bytes_def upt_rec [of g])

theorem guard_frame_witness:
  "(5::addr) \<noteq> 4 \<and> ((\<lambda>_. 0)(5 := 7) :: memory) 4 = ((\<lambda>_. 0)(6 := 9) :: memory) 4
   \<and> cxa_guard_release ((\<lambda>_. 0)(5 := 7)) 4 5 = ((\<lambda>_. 0)(5 := 7) :: memory) 5
   \<and> tl (guard_bytes (cxa_guard_release ((\<lambda>_. 0)(5 := 7)) 4) 4)
       = tl (guard_bytes ((\<lambda>_. 0)(5 := 7)) 4)
   \<and> cxa_guard_acquire ((\<lambda>_. 0)(5 := 7)) 4 = cxa_guard_acquire ((\<lambda>_. 0)(6 := 9)) 4
   \<and> hd (guard_bytes (cxa_guard_release ((\<lambda>_. 0)(5 := 7)) 4) 4) = 1"
proof -
  have h1: "(5::addr) \<noteq> 4" by simp
  have h2: "((\<lambda>_. 0)(5 := 7) :: memory) 4 = ((\<lambda>_. 0)(6 := 9) :: memory) 4" by simp
  show ?thesis
    using guard_frame [of 5 4 "(\<lambda>_. 0)(5 := 7)" "(\<lambda>_. 0)(6 := 9)"] h1 h2 by simp
qed


section \<open>Properties of the registry\<close>

subsection \<open>One block\<close>

lemma run_all_loop_ok:
  "unat i \<le> length (m_funcs b) \<Longrightarrow> unat i \<le> unat BLOCK_SZ \<Longrightarrow>
   run_all_loop b i tr = Inr (tr @ map invoke (rev (take (unat i) (m_funcs b))))"
proof (induction b i tr rule: run_all_loop.induct)
  case (1 b i tr)
  show ?case
  proof (cases "0 < i")
    case False
    then have "i = 0" by (simp add: word_greater_zero_iff)
    then show ?thesis by simp
  next
    case True
    then have nz: "i \<noteq> 0" by auto
    then have pos: "0 < unat i" by (simp add: unat_gt_0)
    have u: "unat (i - 1) = unat i - 1" using nz by (rule unat_minus_one)
    have lt: "unat i - 1 < unat BLOCK_SZ" using pos "1.prems" by simp
    have "run_all_loop b (i - 1) (tr @ [invoke (m_funcs b ! (unat i - 1))])
        = Inr ((tr @ [invoke (m_funcs b ! (unat i - 1))])
               @ map invoke (rev (take (unat (i - 1)) (m_funcs b))))"
      using "1.IH" [OF True lt] "1.prems" u by simp
    moreover have "take (unat i) (m_funcs b)
        = take (unat i - 1) (m_funcs b) @ [m_funcs b ! (unat i - 1)]"
      using pos "1.prems" by (metis Suc_pred' take_Suc_conv_app_nth less_le_trans lessI)
    ultimately show ?thesis using True lt u
      by (subst run_all_loop.simps) simp
  qed
qed

lemma run_all_ok:
  "unat (m_sz b) \<le> length (m_funcs b) \<Longrightarrow> unat (m_sz b) \<le> unat BLOCK_SZ \<Longrightarrow>
   run_all b tr = Inr (tr @ map invoke (rev (take (unat (m_sz b)) (m_funcs b))))"
  unfolding run_all_def by (rule run_all_loop_ok)

subsection \<open>Registrations that fit the static block\<close>

lemma initial_state_tail: "initial_state fs = tail_state [] Ptr_NoOpFinalize fs"
  by (simp add: initial_state_def tail_state_def)

lemma unat_of_nat_small: "n \<le> 32 \<Longrightarrow> unat (of_nat n :: 8 word) = n"
  by (rule of_nat_inverse) simp_all

lemma cxa_atexit_tail:
  assumes "length es < 32"
  shows "cxa_atexit f p d (tail_state es fin fs)
         = Inr (0, tail_state (es @ [\<lparr>m_functionptr = f, m_userdata = p\<rparr>])
                     Ptr_finalize_noargs fs)"
proof -
  have u: "unat (of_nat (length es) :: 8 word) = length es"
    using assms by (simp add: unat_of_nat_small)
  have ne: "(of_nat (length es) :: 8 word) \<noteq> 32"
    using u assms by auto
  have r: "replicate (32 - length es) null_entry
           = null_entry # replicate (32 - Suc (length es)) null_entry"
    using assms by (metis Suc_diff_Suc replicate_Suc)
  show ?thesis
    using assms u ne
    by (simp add: cxa_atexit_def push_front_def tail_state_def full_def BLOCK_SZ_def
        FnBlock_push_front_def list_update_append r)
qed

lemma atexit_calls_tail:
  "length es + length cs \<le> 32 \<Longrightarrow>
   atexit_calls cs (tail_state es fin fs)
   = Inr (replicate (length cs) 0,
          tail_state (es @ map entry_of cs) (if cs = [] then fin else Ptr_finalize_noargs) fs)"
proof (induction cs arbitrary: es fin)
  case Nil
  then show ?case by simp
next
  case (Cons c cs)
  obtain f p d where c: "c = (f, p, d)" by (cases c)
  have lt: "length es < 32" using Cons.prems by simp
  have le: "length (es @ [entry_of c]) + length cs \<le> 32" using Cons.prems by simp
  show ?case
    using Cons.IH [OF le, of Ptr_finalize_noargs] cxa_atexit_tail [OF lt, of f p d fin fs]
    by (simp add: c entry_of_def)
qed

lemma atexit_calls_append:
  "atexit_calls (cs @ ds) s =
     (case atexit_calls cs s of
        Inl e \<Rightarrow> Inl e
      | Inr (rs, s') \<Rightarrow>
          (case atexit_calls ds s' of
             Inl e \<Rightarrow> Inl e
           | Inr (rs', s'') \<Rightarrow> Inr (rs @ rs', s'')))"
  by (induction cs arbitrary: s) (auto split: sum.splits)

lemma run_all_exits_tail:
  assumes "length es \<le> 32"
  shows "run_all_exits (tail_state es fin fs)
         = Some (Inr (tail_state es fin fs, map invoke (rev es)))"
proof -
  have u: "unat (of_nat (length es) :: 8 word) = length es"
    using assms by (simp add: unat_of_nat_small)
  have "run_all (m_tail (tail_state es fin fs)) [] = Inr (map invoke (rev es))"
    by (subst run_all_ok) (use assms u in \<open>simp_all add: tail_state_def BLOCK_SZ_def\<close>)
  moreover have "run_all_exits_loop (tail_state es fin fs) []
                 = Some (Inr (tail_state es fin fs, []))"
    by (subst run_all_exits_loop.simps) (simp add: tail_state_def)
  ultimately show ?thesis
    by (simp add: run_all_exits_def)
qed

lemma new_FnNode_fails:
  "allocation_fails s \<Longrightarrow> new_FnNode next s = (None, s\<lparr>free_store := tl (free_store s)\<rparr>)"
  by (auto simp: new_FnNode_def allocation_fails_def split: list.splits)

lemma push_front_full_fails:
  assumes "head_full s" and "allocation_fails s"
  shows "push_front new_exit s = Inr (False, s\<lparr>free_store := tl (free_store s)\<rparr>)"
proof -
  have "push_front_new_block new_exit s = Inr (False, s\<lparr>free_store := tl (free_store s)\<rparr>)"
    using assms(2) by (simp add: push_front_new_block_def new_FnNode_fails)
  then show ?thesis
    using assms(1) by (auto simp: push_front_def head_full_def split: blockptr.splits option.splits)
qed

lemma push_front_CxaFinalizer:
  "push_front e s = Inr (ok, s') \<Longrightarrow> CxaFinalizer s' = CxaFinalizer s"
  by (auto simp: push_front_def push_front_new_block_def new_FnNode_def
      split: blockptr.splits option.splits if_splits sum.splits list.splits prod.splits)

lemma cxa_atexit_arms:
  "cxa_atexit f p d s = Inr (r, s') \<Longrightarrow> CxaFinalizer s' = Ptr_finalize_noargs"
  by (auto simp: cxa_atexit_def split: sum.splits dest: push_front_CxaFinalizer)

lemma atexit_calls_arms:
  "atexit_calls cs s = Inr (rs, s') \<Longrightarrow> CxaFinalizer s = Ptr_finalize_noargs
   \<Longrightarrow> CxaFinalizer s' = Ptr_finalize_noargs"
proof (induction cs arbitrary: s rs)
  case Nil
  then show ?case by simp
next
  case (Cons c cs)
  obtain f p d where c: "c = (f, p, d)" by (cases c)
  from Cons.prems(1) obtain r s1 rs1 where
    1: "cxa_atexit f p d s = Inr (r, s1)" and 2: "atexit_calls cs s1 = Inr (rs1, s')"
    by (auto simp: c split: sum.splits)
  show ?case using Cons.IH [OF 2] cxa_atexit_arms [OF 1] by simp
qed

subsection \<open>The claims on registration\<close>

text \<open>
  C2. When the block at the head of the list is full and the free store answers the
  request for a new node with a null pointer, \<open>push_front\<close> returns false, and the
  state it leaves differs from the state before in nothing but the consumed answer of
  the free store: the static block, the head pointer, every node of the heap and the
  table entry are as before.
\<close>

theorem push_front_allocation_failure:
  assumes "head_full s" and "allocation_fails s"
  shows "\<exists>s'. push_front new_exit s = Inr (False, s')
           \<and> s' = s\<lparr>free_store := tl (free_store s)\<rparr>
           \<and> m_tail s' = m_tail s \<and> m_list s' = m_list s \<and> heap s' = heap s
           \<and> CxaFinalizer s' = CxaFinalizer s"
  using push_front_full_fails [OF assms, of new_exit] by simp

theorem push_front_allocation_failure_witness:
  "head_full (tail_state (replicate 32 \<lparr>m_functionptr = 7, m_userdata = 8\<rparr>) Ptr_finalize_noargs [None])
   \<and> allocation_fails (tail_state (replicate 32 \<lparr>m_functionptr = 7, m_userdata = 8\<rparr>) Ptr_finalize_noargs [None])
   \<and> push_front \<lparr>m_functionptr = 9, m_userdata = 10\<rparr>
        (tail_state (replicate 32 \<lparr>m_functionptr = 7, m_userdata = 8\<rparr>) Ptr_finalize_noargs [None])
      = Inr (False, tail_state (replicate 32 \<lparr>m_functionptr = 7, m_userdata = 8\<rparr>) Ptr_finalize_noargs [])"
proof -
  let ?s = "tail_state (replicate 32 \<lparr>m_functionptr = 7, m_userdata = 8\<rparr>) Ptr_finalize_noargs [None]"
  have h1: "head_full ?s"
    by (simp add: head_full_def tail_state_def full_def BLOCK_SZ_def)
  have h2: "allocation_fails ?s"
    by (simp add: allocation_fails_def tail_state_def)
  show ?thesis
    using push_front_allocation_failure [OF h1 h2, of "\<lparr>m_functionptr = 9, m_userdata = 10\<rparr>"] h1 h2
    by (simp add: tail_state_def)
qed

text \<open>
  C3. From program start, up to 32 calls of \<open>__cxa_atexit\<close> all return 0, whatever
  the free store would answer: the free store is left as it was, so no request was
  made of it; no node is on the heap; the head pointer is still the static block; and
  the entries are in the static block in the order of the calls.
\<close>

theorem no_allocation_floor:
  assumes "length cs \<le> 32"
  shows "atexit_calls cs (initial_state fs)
         = Inr (replicate (length cs) 0,
                \<lparr>m_tail = \<lparr>m_funcs = map entry_of cs @ replicate (32 - length cs) null_entry,
                           m_sz = of_nat (length cs)\<rparr>,
                 m_list = TailPtr,
                 heap = Map.empty,
                 CxaFinalizer = (if cs = [] then Ptr_NoOpFinalize else Ptr_finalize_noargs),
                 free_store = fs\<rparr>)"
  using atexit_calls_tail [of "[]" cs Ptr_NoOpFinalize fs] assms
  by (simp add: initial_state_tail) (simp add: tail_state_def BLOCK_SZ_def)

theorem no_allocation_floor_witness:
  "length [(1, 101, 0), (2, 102, 0 :: nat)] \<le> (32 :: nat)
   \<and> atexit_calls [(1, 101, 0), (2, 102, 0)] (initial_state [])
       = Inr ([0, 0],
              \<lparr>m_tail = \<lparr>m_funcs = [\<lparr>m_functionptr = 1, m_userdata = 101\<rparr>,
                                     \<lparr>m_functionptr = 2, m_userdata = 102\<rparr>]
                                    @ replicate 30 null_entry,
                         m_sz = 2\<rparr>,
               m_list = TailPtr, heap = Map.empty,
               CxaFinalizer = Ptr_finalize_noargs, free_store = []\<rparr>)"
  using no_allocation_floor [of "[(1, 101, 0), (2, 102, 0)]" "[]"]
  by (simp add: entry_of_def)

text \<open>
  C4. After 32 calls from program start, when the free store answers the next request
  with a null pointer, the 33rd call returns -1 and the 32 calls before it returned 0;
  the traversal of the state it leaves returns, and calls exactly the 32 entries of the
  first 32 calls, each function with its own user data, the last registered first.
\<close>

theorem graceful_exhaustion:
  assumes "length cs = 32" and "allocation_fails (initial_state fs)"
  shows "atexit_calls (cs @ [c]) (initial_state fs)
           = Inr (replicate 32 0 @ [- 1],
                  tail_state (map entry_of cs) Ptr_finalize_noargs (tl fs))
         \<and> run_all_exits (tail_state (map entry_of cs) Ptr_finalize_noargs (tl fs))
           = Some (Inr (tail_state (map entry_of cs) Ptr_finalize_noargs (tl fs),
                        map invoke (rev (map entry_of cs))))
         \<and> exit_trace (cs @ [c]) fs
           = Some (Inr (replicate 32 0 @ [- 1], map invoke (rev (map entry_of cs))))"
proof -
  let ?s = "tail_state (map entry_of cs) Ptr_finalize_noargs fs"
  let ?s' = "tail_state (map entry_of cs) Ptr_finalize_noargs (tl fs)"
  obtain f p d where c: "c = (f, p, d)" by (cases c)
  have ne: "cs \<noteq> []" using assms(1) by auto
  have first: "atexit_calls cs (initial_state fs) = Inr (replicate 32 0, ?s)"
    using atexit_calls_tail [of "[]" cs Ptr_NoOpFinalize fs] assms(1) ne
    by (simp add: initial_state_tail)
  have hf: "head_full ?s"
    using assms(1) by (simp add: head_full_def tail_state_def full_def BLOCK_SZ_def)
  have af: "allocation_fails ?s"
    using assms(2) by (simp add: allocation_fails_def tail_state_def initial_state_def)
  have "push_front \<lparr>m_functionptr = f, m_userdata = p\<rparr> ?s = Inr (False, ?s')"
    using push_front_full_fails [OF hf af] by (simp add: tail_state_def)
  moreover have "?s\<lparr>CxaFinalizer := Ptr_finalize_noargs\<rparr> = ?s"
    by (simp add: tail_state_def)
  ultimately have last: "cxa_atexit f p d ?s = Inr (- 1, ?s')"
    by (simp add: cxa_atexit_def)
  have calls: "atexit_calls (cs @ [c]) (initial_state fs) = Inr (replicate 32 0 @ [- 1], ?s')"
    using first last by (simp add: atexit_calls_append c)
  have run: "run_all_exits ?s' = Some (Inr (?s', map invoke (rev (map entry_of cs))))"
    using run_all_exits_tail [of "map entry_of cs"] assms(1) by simp
  show ?thesis
    using calls run by (simp add: exit_trace_def)
qed


theorem graceful_exhaustion_witness:
  "length (map (\<lambda>i. (i, 100 + i, 0 :: nat)) [1..<33]) = 32
   \<and> allocation_fails (initial_state [])
   \<and> exit_trace (map (\<lambda>i. (i, 100 + i, 0)) [1..<33] @ [(33, 133, 0)]) []
       = Some (Inr (replicate 32 0 @ [- 1], map (\<lambda>i. Call i (100 + i)) (rev [1..<33])))"
proof -
  have h1: "length (map (\<lambda>i. (i, 100 + i, 0 :: nat)) [1..<33]) = 32" by simp
  have h2: "allocation_fails (initial_state [])"
    by (simp add: allocation_fails_def initial_state_def)
  show ?thesis
    using graceful_exhaustion [OF h1 h2, of "(33, 133, 0)"] h1 h2
    by (simp add: entry_of_def invoke_def rev_map o_def)
qed

text \<open>
  C7. A call of \<open>__cxa_atexit\<close> returns 0 with the state that \<open>push_front\<close> leaves
  when \<open>push_front\<close> of the entry made of the first two arguments returns true, and a
  value other than 0 with that state when it returns false; when \<open>push_front\<close> has
  no result, neither has the call. The third argument changes neither the value nor
  the state.
\<close>

theorem cxa_atexit_return_convention:
  "cxa_atexit f p d s = cxa_atexit f p d' s
   \<and> ((\<exists>s'. push_front \<lparr>m_functionptr = f, m_userdata = p\<rparr>
                (s\<lparr>CxaFinalizer := Ptr_finalize_noargs\<rparr>) = Inr (True, s')
             \<and> cxa_atexit f p d s = Inr (0, s'))
      \<or> (\<exists>s' r. push_front \<lparr>m_functionptr = f, m_userdata = p\<rparr>
                (s\<lparr>CxaFinalizer := Ptr_finalize_noargs\<rparr>) = Inr (False, s')
             \<and> r \<noteq> 0 \<and> cxa_atexit f p d s = Inr (r, s'))
      \<or> (\<exists>e. push_front \<lparr>m_functionptr = f, m_userdata = p\<rparr>
                (s\<lparr>CxaFinalizer := Ptr_finalize_noargs\<rparr>) = Inl e
             \<and> cxa_atexit f p d s = Inl e))"
proof (cases "push_front \<lparr>m_functionptr = f, m_userdata = p\<rparr>
                (s\<lparr>CxaFinalizer := Ptr_finalize_noargs\<rparr>)")
  case (Inl e)
  then show ?thesis by (simp add: cxa_atexit_def)
next
  case (Inr x)
  obtain ok s' where x: "x = (ok, s')" by (cases x)
  show ?thesis
  proof (cases ok)
    case True
    then show ?thesis using Inr x by (simp add: cxa_atexit_def)
  next
    case False
    then have "cxa_atexit f p d s = Inr (- 1, s')" using Inr x by (simp add: cxa_atexit_def)
    moreover have "cxa_atexit f p d' s = Inr (- 1, s')"
      using False Inr x by (simp add: cxa_atexit_def)
    ultimately show ?thesis using False Inr x by auto
  qed
qed

text \<open>
  C8. At program start the table entry points to the no-op, and calling it calls
  nothing. A call of \<open>__cxa_atexit\<close> that returns, with 0 or with -1, leaves the
  entry pointing to the routine that runs the traversal; any number of further calls
  leave it so; and calling the entry once is then one run of the traversal.
\<close>

theorem shutdown_hook_arming:
  assumes "cxa_atexit f p d s = Inr (r, s')" and "atexit_calls cs s' = Inr (rs, s'')"
  shows "CxaFinalizer (initial_state fs) = Ptr_NoOpFinalize
         \<and> call_CxaFinalizer (initial_state fs) = Some (Inr (initial_state fs, []))
         \<and> CxaFinalizer s' = Ptr_finalize_noargs
         \<and> CxaFinalizer s'' = Ptr_finalize_noargs
         \<and> call_CxaFinalizer s' = run_all_exits s'
         \<and> call_CxaFinalizer s'' = run_all_exits s''"
proof -
  have 1: "CxaFinalizer s' = Ptr_finalize_noargs"
    using assms(1) by (rule cxa_atexit_arms)
  have 2: "CxaFinalizer s'' = Ptr_finalize_noargs"
    using assms(2) 1 by (rule atexit_calls_arms)
  show ?thesis
    using 1 2 by (simp add: call_CxaFinalizer_def finalize_noargs_def NoOpFinalize_def
        initial_state_def)
qed

theorem shutdown_hook_arming_witness:
  "cxa_atexit 1 101 0 (initial_state [])
     = Inr (0, tail_state [\<lparr>m_functionptr = 1, m_userdata = 101\<rparr>] Ptr_finalize_noargs [])
   \<and> atexit_calls [(2, 102, 0)]
        (tail_state [\<lparr>m_functionptr = 1, m_userdata = 101\<rparr>] Ptr_finalize_noargs [])
     = Inr ([0], tail_state [\<lparr>m_functionptr = 1, m_userdata = 101\<rparr>,
                            \<lparr>m_functionptr = 2, m_userdata = 102\<rparr>] Ptr_finalize_noargs [])
   \<and> CxaFinalizer (initial_state []) = Ptr_NoOpFinalize
   \<and> CxaFinalizer (tail_state [\<lparr>m_functionptr = 1, m_userdata = 101\<rparr>,
                            \<lparr>m_functionptr = 2, m_userdata = 102\<rparr>] Ptr_finalize_noargs [])
     = Ptr_finalize_noargs
   \<and> call_CxaFinalizer (tail_state [\<lparr>m_functionptr = 1, m_userdata = 101\<rparr>,
                            \<lparr>m_functionptr = 2, m_userdata = 102\<rparr>] Ptr_finalize_noargs [])
     = Some (Inr (tail_state [\<lparr>m_functionptr = 1, m_userdata = 101\<rparr>,
                            \<lparr>m_functionptr = 2, m_userdata = 102\<rparr>] Ptr_finalize_noargs [],
                  [Call 2 102, Call 1 101]))"
proof -
  let ?s1 = "tail_state [\<lparr>m_functionptr = 1, m_userdata = 101\<rparr>] Ptr_finalize_noargs []"
  let ?s2 = "tail_state [\<lparr>m_functionptr = 1, m_userdata = 101\<rparr>,
                         \<lparr>m_functionptr = 2, m_userdata = 102\<rparr>] Ptr_finalize_noargs []"
  have h1: "cxa_atexit 1 101 0 (initial_state []) = Inr (0, ?s1)"
    using cxa_atexit_tail [of "[]" 1 101 0 Ptr_NoOpFinalize "[]"]
    by (simp add: initial_state_tail)
  have h2: "atexit_calls [(2, 102, 0)] ?s1 = Inr ([0], ?s2)"
    using atexit_calls_tail [of "[\<lparr>m_functionptr = 1, m_userdata = 101\<rparr>]" "[(2, 102, 0)]"
        Ptr_finalize_noargs "[]"]
    by (simp add: entry_of_def)
  have run: "run_all_exits ?s2 = Some (Inr (?s2, [Call 2 102, Call 1 101]))"
    using run_all_exits_tail [of "[\<lparr>m_functionptr = 1, m_userdata = 101\<rparr>,
                         \<lparr>m_functionptr = 2, m_userdata = 102\<rparr>]" Ptr_finalize_noargs "[]"]
    by (simp add: invoke_def)
  show ?thesis
    using shutdown_hook_arming [OF h1 h2, of "[]"] h1 h2 run by simp
qed

text \<open>
  C9. At program start, with nothing registered, the traversal returns, calls nothing,
  and leaves the state, the free store included, as it was; so does a call of the
  table entry.
\<close>

theorem zero_registration_noop:
  "m_sz (m_tail (initial_state fs)) = 0
   \<and> m_list (initial_state fs) = TailPtr
   \<and> run_all_exits (initial_state fs) = Some (Inr (initial_state fs, []))
   \<and> finalize_noargs (initial_state fs) = Some (Inr (initial_state fs, []))
   \<and> call_CxaFinalizer (initial_state fs) = Some (Inr (initial_state fs, []))"
proof -
  have run: "run_all_exits (initial_state fs) = Some (Inr (initial_state fs, []))"
    using run_all_exits_tail [of "[]" Ptr_NoOpFinalize fs] by (simp add: initial_state_tail)
  have hook: "call_CxaFinalizer (initial_state fs) = Some (Inr (initial_state fs, []))"
    by (simp add: call_CxaFinalizer_def NoOpFinalize_def initial_state_def)
  show ?thesis
    using run hook by (simp add: finalize_noargs_def) (simp add: initial_state_def)
qed

subsection \<open>Registrations that need a node of the heap\<close>

lemma store_ok_distinct: "store_ok as fs \<Longrightarrow> distinct as"
  by (induction as fs rule: store_ok.induct) auto

lemma chain_frame: "a \<notin> set as \<Longrightarrow> chain (h(a \<mapsto> x)) p as = chain h p as"
  by (induction as arbitrary: p) (auto split: option.splits)

lemma node_entries_frame: "a \<notin> set as \<Longrightarrow> node_entries (h(a \<mapsto> x)) as = node_entries h as"
  by (induction as) auto

lemma nodes_ok_frame: "a \<notin> set as \<Longrightarrow> nodes_ok (h(a \<mapsto> x)) as = nodes_ok h as"
  by (induction as) auto

lemma FnBlock_push_front_ok:
  assumes "block_ok b" and "\<not> full b"
  shows "FnBlock_push_front e b
         = Inr (b\<lparr>m_funcs := (m_funcs b)[unat (m_sz b) := e], m_sz := m_sz b + 1\<rparr>)"
    and "block_ok (b\<lparr>m_funcs := (m_funcs b)[unat (m_sz b) := e], m_sz := m_sz b + 1\<rparr>)"
    and "block_entries (b\<lparr>m_funcs := (m_funcs b)[unat (m_sz b) := e], m_sz := m_sz b + 1\<rparr>)
         = block_entries b @ [e]"
proof -
  have "unat (m_sz b) \<noteq> 32"
  proof
    assume "unat (m_sz b) = 32"
    then have "unat (m_sz b) = unat (32 :: 8 word)" by simp
    then have "m_sz b = 32" by (simp only: word_unat_eq_iff)
    then show False using assms(2) by (simp add: full_def BLOCK_SZ_def)
  qed
  then have lt: "unat (m_sz b) < 32" using assms(1) by (simp add: block_ok_def)
  have len: "length (m_funcs b) = 32" using assms(1) by (simp add: block_ok_def)
  have suc: "unat (m_sz b + 1) = Suc (unat (m_sz b))"
    using lt by (simp add: unat_word_ariths)
  show "FnBlock_push_front e b
         = Inr (b\<lparr>m_funcs := (m_funcs b)[unat (m_sz b) := e], m_sz := m_sz b + 1\<rparr>)"
    using lt by (simp add: FnBlock_push_front_def BLOCK_SZ_def)
  show "block_ok (b\<lparr>m_funcs := (m_funcs b)[unat (m_sz b) := e], m_sz := m_sz b + 1\<rparr>)"
    using lt len suc by (simp add: block_ok_def)
  show "block_entries (b\<lparr>m_funcs := (m_funcs b)[unat (m_sz b) := e], m_sz := m_sz b + 1\<rparr>)
         = block_entries b @ [e]"
    using lt len suc by (simp add: block_entries_def take_Suc_conv_app_nth)
qed

lemma run_all_block_ok:
  "block_ok b \<Longrightarrow> run_all b tr = Inr (tr @ map invoke (rev (block_entries b)))"
  by (simp add: run_all_ok block_ok_def block_entries_def BLOCK_SZ_def)

lemma run_all_exits_loop_chain:
  "chain (heap s) (m_list s) as \<Longrightarrow> nodes_ok (heap s) as \<Longrightarrow>
   run_all_exits_loop s tr
   = Some (Inr (s\<lparr>m_list := TailPtr\<rparr>, tr @ map invoke (rev (node_entries (heap s) as))))"
proof (induction as arbitrary: s tr)
  case Nil
  then show ?case by (subst run_all_exits_loop.simps) simp
next
  case (Cons a as)
  from Cons.prems obtain nd where
    p: "m_list s = NodePtr a" and h: "heap s a = Some nd"
    and c: "chain (heap s) (m_next nd) as" and ok: "block_ok nd" and oks: "nodes_ok (heap s) as"
    by (auto split: option.splits)
  have "run_all_exits_loop (s\<lparr>m_list := m_next nd\<rparr>) (tr @ map invoke (rev (block_entries nd)))
        = Some (Inr (s\<lparr>m_list := TailPtr\<rparr>,
                     (tr @ map invoke (rev (block_entries nd)))
                     @ map invoke (rev (node_entries (heap s) as))))"
    using Cons.IH [of "s\<lparr>m_list := m_next nd\<rparr>"] c oks by simp
  then show ?case
    using p h ok by (subst run_all_exits_loop.simps) (simp add: run_all_block_ok)
qed

lemma run_all_exits_registered:
  assumes "registered s as es"
  shows "run_all_exits s = Some (Inr (s\<lparr>m_list := TailPtr\<rparr>, map invoke (rev es)))"
proof -
  have "run_all_exits_loop s []
        = Some (Inr (s\<lparr>m_list := TailPtr\<rparr>, [] @ map invoke (rev (node_entries (heap s) as))))"
    using assms by (intro run_all_exits_loop_chain) (simp_all add: registered_def)
  moreover have "block_ok (m_tail s)" using assms by (simp add: registered_def)
  moreover have "es = block_entries (m_tail s) @ node_entries (heap s) as"
    using assms by (simp add: registered_def)
  ultimately show ?thesis
    by (simp add: run_all_exits_def run_all_block_ok)
qed


lemma push_front_registered:
  assumes "registered s as es"
  shows "\<exists>ok s' as'. push_front e s = Inr (ok, s')
           \<and> registered s' as' (if ok then es @ [e] else es)
           \<and> CxaFinalizer s' = CxaFinalizer s"
proof -
  from assms have ch: "chain (heap s) (m_list s) as" and oks: "nodes_ok (heap s) as"
    and okt: "block_ok (m_tail s)" and st: "store_ok as (free_store s)"
    and es: "es = block_entries (m_tail s) @ node_entries (heap s) as"
    by (simp_all add: registered_def)
  have dist: "distinct as" using st by (rule store_ok_distinct)
  \<comment> \<open>the branch that asks the free store, from any state of this kind\<close>
  have grow: "\<exists>ok s' as'. push_front_new_block e s = Inr (ok, s')
           \<and> registered s' as' (if ok then es @ [e] else es)
           \<and> CxaFinalizer s' = CxaFinalizer s"
  proof (cases "free_store s")
    case Nil
    then have "push_front_new_block e s = Inr (False, s)"
      by (simp add: push_front_new_block_def new_FnNode_def)
    then show ?thesis using assms by auto
  next
    case (Cons x rest)
    show ?thesis
    proof (cases x)
      case None
      then have "push_front_new_block e s = Inr (False, s\<lparr>free_store := rest\<rparr>)"
        using Cons by (simp add: push_front_new_block_def new_FnNode_def)
      moreover have "registered (s\<lparr>free_store := rest\<rparr>) as es"
        using assms Cons None by (simp add: registered_def)
      ultimately show ?thesis by auto
    next
      case (Some ar)
      obtain a raw where ar: "ar = (a, raw)" by (cases ar)
      from st Cons Some ar have z: "m_sz raw = 0" and len: "length (m_funcs raw) = 32"
        and fresh: "a \<notin> set as" and st': "store_ok (a # as) rest"
        by simp_all
      let ?nd = "\<lparr>m_funcs = m_funcs raw, m_sz = m_sz raw, m_next = m_list s\<rparr>"
      let ?nb = "?nd\<lparr>m_funcs := (m_funcs ?nd)[unat (m_sz ?nd) := e], m_sz := m_sz ?nd + 1\<rparr>"
      let ?s' = "s\<lparr>heap := (heap s)(a \<mapsto> ?nb), free_store := rest, m_list := NodePtr a\<rparr>"
      have ok: "block_ok ?nd" using z len by (simp add: block_ok_def)
      have nf: "\<not> full ?nd" using z by (simp add: full_def BLOCK_SZ_def)
      have be: "block_entries ?nd = []" using z by (simp add: block_entries_def)
      have pf: "push_front_new_block e s = Inr (True, ?s')"
        using Cons Some ar FnBlock_push_front_ok(1) [OF ok nf, of e]
        by (simp add: push_front_new_block_def new_FnNode_def)
      have "registered ?s' (a # as) (es @ [e])"
        using ch oks okt st' es fresh be
          FnBlock_push_front_ok(2) [OF ok nf, of e] FnBlock_push_front_ok(3) [OF ok nf, of e]
        by (simp add: registered_def chain_frame nodes_ok_frame node_entries_frame)
      then show ?thesis using pf by auto
    qed
  qed
  show ?thesis
  proof (cases as)
    case Nil
    then have p: "m_list s = TailPtr" using ch by simp
    show ?thesis
    proof (cases "full (m_tail s)")
      case True
      then show ?thesis using grow p by (simp add: push_front_def)
    next
      case False
      let ?b = "(m_tail s)\<lparr>m_funcs := (m_funcs (m_tail s))[unat (m_sz (m_tail s)) := e],
                            m_sz := m_sz (m_tail s) + 1\<rparr>"
      have "push_front e s = Inr (True, s\<lparr>m_tail := ?b\<rparr>)"
        using p False FnBlock_push_front_ok(1) [OF okt False, of e] by (simp add: push_front_def)
      moreover have "registered (s\<lparr>m_tail := ?b\<rparr>) as (es @ [e])"
        using ch oks st es Nil
          FnBlock_push_front_ok(2) [OF okt False, of e] FnBlock_push_front_ok(3) [OF okt False, of e]
        by (simp add: registered_def)
      ultimately show ?thesis by auto
    qed
  next
    case (Cons a as')
    from ch oks Cons obtain nd where
      p: "m_list s = NodePtr a" and h: "heap s a = Some nd"
      and c: "chain (heap s) (m_next nd) as'" and ok: "block_ok nd"
      and oks': "nodes_ok (heap s) as'"
      by (auto split: option.splits)
    have fresh: "a \<notin> set as'" using dist Cons by simp
    show ?thesis
    proof (cases "full nd")
      case True
      then show ?thesis using grow p h by (simp add: push_front_def)
    next
      case False
      let ?b = "nd\<lparr>m_funcs := (m_funcs nd)[unat (m_sz nd) := e], m_sz := m_sz nd + 1\<rparr>"
      have "push_front e s = Inr (True, s\<lparr>heap := (heap s)(a \<mapsto> ?b)\<rparr>)"
        using p h False FnBlock_push_front_ok(1) [OF ok False, of e] by (simp add: push_front_def)
      moreover have "registered (s\<lparr>heap := (heap s)(a \<mapsto> ?b)\<rparr>) as (es @ [e])"
        using c oks' okt st es Cons h p fresh
          FnBlock_push_front_ok(2) [OF ok False, of e] FnBlock_push_front_ok(3) [OF ok False, of e]
        by (simp add: registered_def chain_frame nodes_ok_frame node_entries_frame)
      ultimately show ?thesis by auto
    qed
  qed
qed

lemma registered_CxaFinalizer [simp]:
  "registered (s\<lparr>CxaFinalizer := x\<rparr>) as es = registered s as es"
  by (simp add: registered_def)

lemma cxa_atexit_registered:
  assumes "registered s as es"
  shows "\<exists>r s' as'. cxa_atexit f p d s = Inr (r, s') \<and> (r = 0 \<or> r = - 1)
           \<and> registered s' as'
                (if r = 0 then es @ [\<lparr>m_functionptr = f, m_userdata = p\<rparr>] else es)"
proof -
  have "registered (s\<lparr>CxaFinalizer := Ptr_finalize_noargs\<rparr>) as es"
    using assms by simp
  from push_front_registered [OF this, of "\<lparr>m_functionptr = f, m_userdata = p\<rparr>"]
  obtain ok s' as' where
    "push_front \<lparr>m_functionptr = f, m_userdata = p\<rparr> (s\<lparr>CxaFinalizer := Ptr_finalize_noargs\<rparr>)
     = Inr (ok, s')"
    and "registered s' as' (if ok then es @ [\<lparr>m_functionptr = f, m_userdata = p\<rparr>] else es)"
    by blast
  then show ?thesis
    by (cases ok) (auto simp: cxa_atexit_def)
qed

lemma atexit_calls_registered:
  "registered s as es \<Longrightarrow>
   \<exists>rs s' as'. atexit_calls cs s = Inr (rs, s') \<and> length rs = length cs
      \<and> registered s' as' (es @ map entry_of (accepted rs cs))"
proof (induction cs arbitrary: s as es)
  case Nil
  then show ?case by (auto simp: accepted_def)
next
  case (Cons c cs)
  obtain f p d where c: "c = (f, p, d)" by (cases c)
  let ?e = "\<lparr>m_functionptr = f, m_userdata = p\<rparr>"
  from cxa_atexit_registered [OF Cons.prems, of f p d]
  obtain r s1 as1 where 1: "cxa_atexit f p d s = Inr (r, s1)"
    and reg1: "registered s1 as1 (if r = 0 then es @ [?e] else es)"
    by blast
  from Cons.IH [OF reg1]
  obtain rs s' as' where 2: "atexit_calls cs s1 = Inr (rs, s')" and len: "length rs = length cs"
    and reg: "registered s' as' ((if r = 0 then es @ [?e] else es) @ map entry_of (accepted rs cs))"
    by blast
  have "(if r = 0 then es @ [?e] else es) @ map entry_of (accepted rs cs)
        = es @ map entry_of (accepted (r # rs) (c # cs))"
    by (simp add: accepted_def entry_of_def c)
  then have "registered s' as' (es @ map entry_of (accepted (r # rs) (c # cs)))"
    using reg by simp
  moreover have "atexit_calls (c # cs) s = Inr (r # rs, s')"
    using 1 2 by (simp add: c)
  ultimately show ?case using len by fastforce
qed

lemma registered_initial_state:
  "store_ok [] fs \<Longrightarrow> registered (initial_state fs) [] []"
  by (simp add: registered_def initial_state_def block_ok_def block_entries_def BLOCK_SZ_def)

lemma accepted_all: "accepted (replicate (length cs) 0) cs = cs"
  by (induction cs) (simp_all add: accepted_def)

text \<open>
  When every piece of storage that the free store hands out holds the count 0 (and 32
  entries, at an address of its own), no call of a run from program start goes out of
  bounds, the traversal returns, and it calls the entries of the calls that returned 0,
  the last registered first, whatever the number of calls.
\<close>

lemma lifo_order_zeroed_nodes:
  assumes "store_ok [] fs"
  shows "\<exists>rs. length rs = length cs
           \<and> exit_trace cs fs = Some (Inr (rs, map invoke (rev (map entry_of (accepted rs cs)))))"
proof -
  from atexit_calls_registered [OF registered_initial_state [OF assms], of cs]
  obtain rs s' as' where 1: "atexit_calls cs (initial_state fs) = Inr (rs, s')"
    and len: "length rs = length cs"
    and reg: "registered s' as' (map entry_of (accepted rs cs))"
    by auto
  show ?thesis
    using 1 len run_all_exits_registered [OF reg] by (simp add: exit_trace_def)
qed

lemma lifo_order_zeroed_nodes_all_registered:
  assumes "store_ok [] fs"
    and "atexit_calls cs (initial_state fs) = Inr (replicate (length cs) 0, s)"
  shows "\<exists>s'. run_all_exits s = Some (Inr (s', map invoke (rev (map entry_of cs))))"
proof -
  from atexit_calls_registered [OF registered_initial_state [OF assms(1)], of cs] assms(2)
  obtain as' where "registered s as' (map entry_of (accepted (replicate (length cs) 0) cs))"
    by auto
  then show ?thesis
    using run_all_exits_registered by (simp add: accepted_all)
qed

text \<open>
  The run of 40 calls, with one node handed out zeroed after the 32nd: the traversal
  calls 40, 39, ..., 1.
\<close>

lemma upt_41: "[1..<41] = [1..<33] @ [33, 34, 35, 36, 37, 38, 39, 40]"
  by (simp add: upt_rec)

lemma forty_registrations:
  "exit_trace (map (\<lambda>i. (i, 100 + i, 0)) [1..<41])
     [Some (500, \<lparr>m_funcs = replicate 32 null_entry, m_sz = 0\<rparr>)]
   = Some (Inr (replicate 40 0, map (\<lambda>i. Call i (100 + i)) (rev [1..<41])))"
  apply (simp only: upt_41 map_append exit_trace_def atexit_calls_append initial_state_tail)
  apply (subst atexit_calls_tail)
   apply simp
  apply (simp add: tail_state_def cxa_atexit_def push_front_def full_def BLOCK_SZ_def
     push_front_new_block_def new_FnNode_def FnBlock_push_front_def)
  apply (simp add: run_all_exits_def run_all_exits_loop.simps run_all_ok BLOCK_SZ_def)
  apply (simp add: entry_of_def invoke_def rev_map o_def)
  apply code_simp
  done

lemma upt_34: "[1..<34] = [1..<33] @ [33]"
  by (simp add: upt_rec)

text \<open>
  C1. The claim is that the traversal calls the entries of any run of successful
  registrations in the reverse of the order of registration, across any number of
  blocks. It holds while the entries fit the static block (\<open>run_all_exits_tail\<close>) and
  when new nodes arrive with the count 0 (\<open>lifo_order_zeroed_nodes\<close>), but the
  constructor of a node does not set the count. Here are 33 calls from program start,
  the entry \<open>i\<close> with user data \<open>100 + i\<close>; the free store hands out storage at
  address 500 in which the byte of the count holds 1 and the entries hold the pair
  77, 78. All 33 calls return 0; the traversal calls entry 33, then the function 77 that
  nobody registered, then the entries 32 down to 1.
\<close>

theorem lifo_order_uninitialised_node:
  "exit_trace (map (\<lambda>i. (i, 100 + i, 0)) [1..<34])
     [Some (500, \<lparr>m_funcs = replicate 32 \<lparr>m_functionptr = 77, m_userdata = 78\<rparr>, m_sz = 1\<rparr>)]
   = Some (Inr (replicate 33 0,
                Call 33 133 # Call 77 78 # map (\<lambda>i. Call i (100 + i)) (rev [1..<33])))"
  apply (simp only: upt_34 map_append exit_trace_def atexit_calls_append initial_state_tail)
  apply (subst atexit_calls_tail)
   apply simp
  apply (simp add: tail_state_def cxa_atexit_def push_front_def full_def BLOCK_SZ_def
     push_front_new_block_def new_FnNode_def FnBlock_push_front_def)
  apply (simp add: run_all_exits_def run_all_exits_loop.simps run_all_ok BLOCK_SZ_def)
  apply (simp add: entry_of_def invoke_def rev_map o_def)
  apply code_simp
  done

text \<open>
  C10. The claim is that every write of \<open>FnBlock::push_front\<close> is within the 32
  entries of the array, a new node having the count 0. No call goes out of bounds when
  new nodes arrive with the count 0 (\<open>atexit_calls_registered\<close>), but the constructor
  of a node does not set the count, and \<open>push_front\<close> does not test a new node with
  \<open>full\<close>. Here are the same 33 calls; the free store hands out storage in which the
  byte of the count holds 255. The 33rd call writes the entry at index 255 of the array
  of the new node.
\<close>

theorem out_of_bounds_uninitialised_node:
  "atexit_calls (map (\<lambda>i. (i, 100 + i, 0)) [1..<34])
     (initial_state
        [Some (500, \<lparr>m_funcs = replicate 32 \<lparr>m_functionptr = 77, m_userdata = 78\<rparr>,
                     m_sz = 255\<rparr>)])
   = Inl OutOfBounds"
  apply (simp only: upt_34 map_append atexit_calls_append initial_state_tail)
  apply (subst atexit_calls_tail)
   apply simp
  apply (simp add: tail_state_def cxa_atexit_def push_front_def full_def BLOCK_SZ_def
     push_front_new_block_def new_FnNode_def FnBlock_push_front_def)
  done

end
